theory Spec2Isabelle
  imports Main "HOL-Library.Word" "HOL-Library.Stream"
begin

section \<open>Parsed routes (pagerouter.h, struct ParsedRoute)\<close>

text \<open>
  A \<^verbatim>\<open>ParsedRoute\<close> has four fields. The payload \<^verbatim>\<open>QVariant data\<close> is a value of an
  arbitrary type \<open>'v\<close>, and \<^verbatim>\<open>QVariant::operator==\<close> is equality of such values. The
  guarded pointer \<^verbatim>\<open>QPointer<QQuickItem> item\<close> is the address of a page object, or
  \<open>None\<close> for the null pointer; two pointers are equal when they hold the same address.
\<close>

record 'v ParsedRoute =
  name :: string
  data :: 'v
  cache :: bool
  item :: "nat option"

text \<open>
  \<^verbatim>\<open>bool operator==(const ParsedRoute& rhs)
  { return name == rhs.name && data == rhs.data && item == rhs.item && cache == rhs.cache; }\<close>
\<close>

definition operator_eq :: "'v ParsedRoute \<Rightarrow> 'v ParsedRoute \<Rightarrow> bool" where
  "operator_eq this rhs \<longleftrightarrow>
     name this = name rhs \<and> data this = data rhs \<and> item this = item rhs \<and> cache this = cache rhs"

text \<open>
  \<^verbatim>\<open>bool operator!=(const ParsedRoute& rhs)
  { return name != rhs.name && data != rhs.data && item != rhs.item && cache != rhs.cache; }\<close>
\<close>

definition operator_neq :: "'v ParsedRoute \<Rightarrow> 'v ParsedRoute \<Rightarrow> bool" where
  "operator_neq this rhs \<longleftrightarrow>
     name this \<noteq> name rhs \<and> data this \<noteq> data rhs \<and> item this \<noteq> item rhs \<and> cache this \<noteq> cache rhs"

section \<open>The table of known payloads and the identity of a route\<close>

text \<open>
  \<^verbatim>\<open>static std::map<quint32,QVariant> s_knownVariants;\<close>
  A \<^verbatim>\<open>std::map\<close> holds one value per key and is iterated in ascending key order: the
  model is the list of its (key, value) pairs in iteration order. \<open>map_count\<close> is
  \<^verbatim>\<open>std::map::count\<close>, \<open>map_assign\<close> is the assignment \<^verbatim>\<open>m[k] = v\<close>, which puts a new key
  at its place in the order and overwrites the value of a key that is present.
\<close>

type_synonym quint32 = "32 word"

type_synonym 'v variant_map = "(quint32 \<times> 'v) list"

fun map_count :: "'v variant_map \<Rightarrow> quint32 \<Rightarrow> nat" where
  "map_count [] k = 0"
| "map_count ((k', v) # kvs) k = (if k' = k then 1 else map_count kvs k)"

fun map_assign :: "quint32 \<Rightarrow> 'v \<Rightarrow> 'v variant_map \<Rightarrow> 'v variant_map" where
  "map_assign k v [] = [(k, v)]"
| "map_assign k v ((k', v') # kvs) =
     (if k < k' then (k, v) # (k', v') # kvs
      else if k = k' then (k, v) # kvs
      else (k', v') # map_assign k v kvs)"

text \<open>
  The state \<^verbatim>\<open>hash()\<close> works on: the table, and the system random generator, given by
  the stream of the numbers its next calls of \<^verbatim>\<open>generate()\<close> return.
\<close>

record 'v process =
  s_knownVariants :: "'v variant_map"
  generator :: "quint32 stream"

text \<open>
  The first loop of \<^verbatim>\<open>hash()\<close>:
  \<^verbatim>\<open>for (auto i = s_knownVariants.begin(); i != s_knownVariants.end(); i++)
      if (i->second == data) return i->first;\<close>
\<close>

fun hash_find :: "'v \<Rightarrow> 'v variant_map \<Rightarrow> quint32 option" where
  "hash_find d [] = None"
| "hash_find d ((k, v) # kvs) = (if v = d then Some k else hash_find d kvs)"

text \<open>
  The second loop: \<^verbatim>\<open>while (s_knownVariants.count(number) > 0) number = generate();\<close>
  It ends only when the generator yields a number that is not a key of the table, so it is
  a partial function: \<open>None\<close> stands for a loop that never ends.
\<close>

partial_function (option) hash_generate ::
  "'v variant_map \<Rightarrow> quint32 \<Rightarrow> quint32 stream \<Rightarrow> (quint32 \<times> quint32 stream) option" where
  "hash_generate tbl number rs =
     (if map_count tbl number > 0 then hash_generate tbl (shd rs) (stl rs)
      else Some (number, rs))"

text \<open>
  \<^verbatim>\<open>quint32 hash()\<close>: the key of the first entry holding the route's payload, or else a
  number drawn until it is no key of the table, which is stored with the payload.
\<close>

definition hash :: "'v ParsedRoute \<Rightarrow> 'v process \<Rightarrow> (quint32 \<times> 'v process) option" where
  "hash this p =
     (case hash_find (data this) (s_knownVariants p) of
        Some k \<Rightarrow> Some (k, p)
      | None \<Rightarrow>
         (case hash_generate (s_knownVariants p) (shd (generator p)) (stl (generator p)) of
            None \<Rightarrow> None
          | Some (number, rs) \<Rightarrow>
              Some (number, p\<lparr>s_knownVariants := map_assign number (data this) (s_knownVariants p),
                              generator := rs\<rparr>)))"

text \<open>
  The identities a sequence of routes receives when \<^verbatim>\<open>hash()\<close> is called on each in turn,
  every call working on the table and the generator the calls before it left.
\<close>

fun hash_all :: "'v ParsedRoute list \<Rightarrow> 'v process \<Rightarrow> (quint32 list \<times> 'v process) option" where
  "hash_all [] p = Some ([], p)"
| "hash_all (r # rs) p =
     (case hash r p of
        None \<Rightarrow> None
      | Some (k, p') \<Rightarrow>
         (case hash_all rs p' of
            None \<Rightarrow> None
          | Some (ks, p'') \<Rightarrow> Some (k # ks, p'')))"

section \<open>Route specifications and the active-route query\<close>

text \<open>
  Modelled from the spec: the shape of a route step, which \<^verbatim>\<open>parseRoute\<close> in pagerouter.cpp
  reads from a script value (that file is not among the sources). The spec and the header's
  documentation of \<^verbatim>\<open>navigateToRoute\<close> give the two shapes: a bare name string, a page
  without associated data, or a record of a name and a payload.
\<close>

datatype 'v RouteStep = RouteName string | RouteData string 'v

text \<open>
  Modelled from the spec: how one step of a specification is compared with one entry of
  the stack, part of the body of \<^verbatim>\<open>PageRouter::routeActive\<close> (pagerouter.cpp, not among the
  sources). The spec: by name, and by data-equality when data is given.
\<close>

fun step_matches :: "'v RouteStep \<Rightarrow> 'v ParsedRoute \<Rightarrow> bool" where
  "step_matches (RouteName n) r \<longleftrightarrow> name r = n"
| "step_matches (RouteData n d) r \<longleftrightarrow> name r = n \<and> data r = d"

text \<open>
  Modelled from the spec: the body of \<^verbatim>\<open>PageRouter::routeActive\<close>, which the header only
  declares (pagerouter.cpp is not among the sources). The spec: true iff the specification
  is a prefix of the current stack, starting at index 0. The first argument is the member
  \<^verbatim>\<open>QList<ParsedRoute*> m_currentRoutes\<close>, root first; the loop walks the specification and
  the stack together from the root and stops at the first step that has no entry or does
  not match its entry.
\<close>

fun routeActive :: "'v ParsedRoute list \<Rightarrow> 'v RouteStep list \<Rightarrow> bool" where
  "routeActive m_currentRoutes [] = True"
| "routeActive [] (s # spec) = False"
| "routeActive (r # m_currentRoutes) (s # spec) =
     (if step_matches s r then routeActive m_currentRoutes spec else False)"

text \<open>
  A specification matches the stack at offset \<open>k\<close> when its steps match the entries
  \<open>k\<close>, \<open>k + 1\<close>, ... of the stack, one by one, and the stack has them all.
\<close>

definition matches_at :: "nat \<Rightarrow> 'v RouteStep list \<Rightarrow> 'v ParsedRoute list \<Rightarrow> bool" where
  "matches_at k spec stack \<longleftrightarrow>
     k + length spec \<le> length stack \<and>
     (\<forall>i. i < length spec \<longrightarrow> step_matches (spec ! i) (stack ! (k + i)))"

section \<open>Values the theorems are evaluated at\<close>

definition route_of :: "string \<Rightarrow> nat \<Rightarrow> nat ParsedRoute" where
  "route_of n d = \<lparr>name = n, data = d, cache = True, item = None\<rparr>"

definition process_start :: "nat process" where
  "process_start = \<lparr>s_knownVariants = [], generator = 7 ## 7 ## 3 ## sconst 9\<rparr>"

definition process_later :: "nat process" where
  "process_later = \<lparr>s_knownVariants = [(3, 20), (7, 10)], generator = sconst 9\<rparr>"

definition process_stuck :: "nat process" where
  "process_stuck = \<lparr>s_knownVariants = [(7, 10)], generator = sconst 7\<rparr>"

definition stack_abc :: "nat ParsedRoute list" where
  "stack_abc = [route_of ''/home'' 0, route_of ''/login'' 1, route_of ''/google'' 2]"

section \<open>The inequality operator\<close>

text \<open>
  C10. Claim: for every pair of routes, \<^verbatim>\<open>a != b\<close> is true exactly when \<^verbatim>\<open>a == b\<close> is
  false. The operator of the header is the conjunction of the four componentwise
  inequalities, so two routes that differ in some but not all of their fields are neither
  equal nor unequal: here the two routes differ in their names only.
\<close>

theorem operator_neq_differs_from_negation:
  "\<not> operator_eq \<lparr>name = ''/home'', data = (1::nat), cache = False, item = None\<rparr>
                   \<lparr>name = ''/login'', data = 1, cache = False, item = None\<rparr> \<and>
   \<not> operator_neq \<lparr>name = ''/home'', data = (1::nat), cache = False, item = None\<rparr>
                    \<lparr>name = ''/login'', data = 1, cache = False, item = None\<rparr>"
  by (simp add: operator_eq_def operator_neq_def)

section \<open>The table as a map in key order\<close>

lemma map_count_pos: "map_count tbl k > 0 \<longleftrightarrow> k \<in> set (map fst tbl)"
  by (induction tbl k rule: map_count.induct) auto

lemma map_count_zero: "map_count tbl k = 0 \<longleftrightarrow> k \<notin> set (map fst tbl)"
  by (induction tbl k rule: map_count.induct) auto

lemma hash_find_None: "hash_find d tbl = None \<longleftrightarrow> d \<notin> set (map snd tbl)"
  by (induction d tbl rule: hash_find.induct) auto

lemma hash_find_Some: "hash_find d tbl = Some k \<Longrightarrow> (k, d) \<in> set tbl"
  by (induction tbl) (auto split: if_splits)

lemma keys_map_assign: "set (map fst (map_assign k v tbl)) = insert k (set (map fst tbl))"
proof (induction tbl)
  case Nil
  show ?case by simp
next
  case (Cons kv tbl)
  obtain k' v' where kv: "kv = (k', v')" by (cases kv)
  have "set (map fst (map_assign k v ((k', v') # tbl))) = insert k (insert k' (set (map fst tbl)))"
    using Cons.IH by (auto simp del: set_map simp add: insert_commute)
  with kv show ?case by simp
qed

lemma set_map_assign:
  "k \<notin> set (map fst tbl) \<Longrightarrow> set (map_assign k v tbl) = insert (k, v) (set tbl)"
proof (induction tbl)
  case Nil
  show ?case by simp
next
  case (Cons kv tbl)
  obtain k' v' where kv: "kv = (k', v')" by (cases kv)
  from Cons.prems kv have ne: "k \<noteq> k'" and notin: "k \<notin> set (map fst tbl)" by simp_all
  from Cons.IH [OF notin] ne kv show ?case by (simp add: insert_commute)
qed

lemma hash_find_map_assign_other:
  "k \<notin> set (map fst tbl) \<Longrightarrow> v \<noteq> d \<Longrightarrow> hash_find d (map_assign k v tbl) = hash_find d tbl"
  by (induction k v tbl rule: map_assign.induct) auto

lemma hash_find_map_assign_same:
  "k \<notin> set (map fst tbl) \<Longrightarrow> d \<notin> set (map snd tbl) \<Longrightarrow> hash_find d (map_assign k d tbl) = Some k"
  by (induction k d tbl rule: map_assign.induct) auto

lemma sorted_map_assign:
  "sorted_wrt (<) (map fst tbl) \<Longrightarrow> sorted_wrt (<) (map fst (map_assign k v tbl))"
proof (induction tbl)
  case Nil
  then show ?case by simp
next
  case (Cons kv tbl)
  obtain k' v' where kv: "kv = (k', v')" by (cases kv)
  show ?case
  proof (cases "k < k'")
    case True
    with Cons.prems kv show ?thesis by auto
  next
    case False
    show ?thesis
    proof (cases "k = k'")
      case True
      with Cons.prems kv show ?thesis by auto
    next
      case ne: False
      with False have lt: "k' < k" by simp
      have "\<forall>x\<in>set (map fst (map_assign k v tbl)). k' < x"
        unfolding keys_map_assign using Cons.prems kv lt by auto
      with Cons kv False ne show ?thesis by auto
    qed
  qed
qed

section \<open>The drawing loop\<close>

lemma hash_generate_stop: "map_count tbl n = 0 \<Longrightarrow> hash_generate tbl n rs = Some (n, rs)"
  by (subst hash_generate.simps) simp

lemma hash_generate_step:
  "0 < map_count tbl n \<Longrightarrow> hash_generate tbl n rs = hash_generate tbl (shd rs) (stl rs)"
  by (subst hash_generate.simps) simp

lemma hash_generate_result:
  assumes "hash_generate tbl n rs = Some y"
  shows "map_count tbl (fst y) = 0"
  by (rule hash_generate.raw_induct[where P = "\<lambda>tbl n rs y. map_count tbl (fst y) = 0", OF _ assms])
     (auto split: if_splits)

lemma hash_generate_returns:
  "map_count tbl ((n ## rs) !! i) = 0 \<Longrightarrow> hash_generate tbl n rs \<noteq> None"
proof (induction i arbitrary: n rs)
  case 0
  then show ?case by (subst hash_generate.simps) simp
next
  case (Suc i)
  then show ?case by (subst hash_generate.simps) (cases rs; simp)
qed


lemma hash_generate_drawn:
  assumes "hash_generate tbl n rs = Some y"
  shows "\<exists>i. fst y = (n ## rs) !! i"
proof (rule hash_generate.raw_induct[where P = "\<lambda>tbl n rs y. \<exists>i. fst y = (n ## rs) !! i", OF _ assms])
  fix hg :: "'a variant_map \<Rightarrow> quint32 \<Rightarrow> quint32 stream \<Rightarrow> (quint32 \<times> quint32 stream) option"
    and tbl n rs y
  assume IH: "\<And>tbl n rs y. hg tbl n rs = Some y \<Longrightarrow> \<exists>i. fst y = (n ## rs) !! i"
    and eq: "(if 0 < map_count tbl n then hg tbl (shd rs) (stl rs) else Some (n, rs)) = Some y"
  show "\<exists>i. fst y = (n ## rs) !! i"
  proof (cases "0 < map_count tbl n")
    case True
    with eq have "hg tbl (shd rs) (stl rs) = Some y" by simp
    from IH [OF this] obtain i where "fst y = (shd rs ## stl rs) !! i" ..
    then have "fst y = (n ## rs) !! Suc i" by simp
    then show ?thesis ..
  next
    case False
    with eq have "fst y = (n ## rs) !! 0" by auto
    then show ?thesis ..
  qed
qed

lemma hash_generate_None:
  "hash_generate tbl n rs = None \<longleftrightarrow> (\<forall>i. (n ## rs) !! i \<in> set (map fst tbl))"
proof
  assume none: "hash_generate tbl n rs = None"
  show "\<forall>i. (n ## rs) !! i \<in> set (map fst tbl)"
  proof (rule ccontr)
    assume "\<not> ?thesis"
    then obtain i where "map_count tbl ((n ## rs) !! i) = 0"
      unfolding map_count_zero by blast
    from hash_generate_returns [OF this] none show False by simp
  qed
next
  assume all: "\<forall>i. (n ## rs) !! i \<in> set (map fst tbl)"
  show "hash_generate tbl n rs = None"
  proof (cases "hash_generate tbl n rs")
    case None
    then show ?thesis .
  next
    case (Some y)
    from hash_generate_drawn [OF Some] obtain i where "fst y = (n ## rs) !! i" ..
    with all have "fst y \<in> set (map fst tbl)" by simp
    with hash_generate_result [OF Some] show ?thesis
      unfolding map_count_zero by simp
  qed
qed

section \<open>One call of hash\<close>

lemma hash_known:
  "hash_find (data r) (s_knownVariants p) = Some k \<Longrightarrow> hash r p = Some (k, p)"
  by (simp add: hash_def)

lemma hash_minted:
  assumes "hash_find (data r) (s_knownVariants p) = None" and "hash r p = Some (k, p')"
  shows "k \<notin> set (map fst (s_knownVariants p))"
    and "s_knownVariants p' = map_assign k (data r) (s_knownVariants p)"
proof -
  from assms obtain rs where
    gen: "hash_generate (s_knownVariants p) (shd (generator p)) (stl (generator p)) = Some (k, rs)"
    and p': "p' = p\<lparr>s_knownVariants := map_assign k (data r) (s_knownVariants p), generator := rs\<rparr>"
    by (auto simp: hash_def split: option.splits)
  from hash_generate_result [OF gen] show "k \<notin> set (map fst (s_knownVariants p))"
    unfolding map_count_zero by simp
  from p' show "s_knownVariants p' = map_assign k (data r) (s_knownVariants p)" by simp
qed

lemma hash_None:
  "hash r p = None \<longleftrightarrow>
     data r \<notin> set (map snd (s_knownVariants p)) \<and>
     (\<forall>i. generator p !! i \<in> set (map fst (s_knownVariants p)))"
proof (cases "hash_find (data r) (s_knownVariants p)")
  case None
  then have "hash r p = None \<longleftrightarrow>
      hash_generate (s_knownVariants p) (shd (generator p)) (stl (generator p)) = None"
    by (simp add: hash_def split: option.splits)
  with None show ?thesis
    unfolding hash_generate_None by (simp add: hash_find_None del: set_map)
next
  case (Some k)
  then have "data r \<in> set (map snd (s_knownVariants p))"
    using hash_find_None [of "data r" "s_knownVariants p"] by (simp del: set_map)
  with Some show ?thesis by (simp add: hash_def del: set_map)
qed

lemma hash_then_find:
  assumes "hash r p = Some (k, p')"
  shows "hash_find (data r) (s_knownVariants p') = Some k"
proof (cases "hash_find (data r) (s_knownVariants p)")
  case None
  from hash_minted [OF None assms] None show ?thesis
    by (simp add: hash_find_map_assign_same hash_find_None del: set_map)
next
  case (Some j)
  with assms show ?thesis by (simp add: hash_def)
qed

lemma hash_keeps_find:
  assumes "hash r p = Some (k, p')" and "hash_find d (s_knownVariants p) = Some j"
  shows "hash_find d (s_knownVariants p') = Some j"
proof (cases "hash_find (data r) (s_knownVariants p)")
  case None
  with assms(2) have "data r \<noteq> d" by auto
  with hash_minted [OF None assms(1)] assms(2) show ?thesis
    by (simp add: hash_find_map_assign_other del: set_map)
next
  case (Some i)
  with assms show ?thesis by (simp add: hash_def)
qed

lemma hash_find_least:
  "sorted_wrt (<) (map fst tbl) \<Longrightarrow> hash_find d tbl = Some k \<Longrightarrow> (j, d) \<in> set tbl \<Longrightarrow> k \<le> j"
proof (induction d tbl rule: hash_find.induct)
  case (1 d)
  then show ?case by simp
next
  case (2 d k' v kvs)
  show ?case
  proof (cases "v = d")
    case True
    with "2.prems"(2) have k: "k = k'" by simp
    from "2.prems"(3) have "j = k' \<or> (j, d) \<in> set kvs" by auto
    then show ?thesis
    proof
      assume "j = k'" with k show ?thesis by simp
    next
      assume "(j, d) \<in> set kvs"
      with "2.prems"(1) have "k' < j" by auto
      with k show ?thesis by simp
    qed
  next
    case False
    with "2.prems" have "sorted_wrt (<) (map fst kvs)" "hash_find d kvs = Some k" "(j, d) \<in> set kvs"
      by auto
    with "2.IH" [OF False] show ?thesis by simp
  qed
qed

lemma hash_find_Min:
  assumes "sorted_wrt (<) (map fst tbl)" and "hash_find d tbl = Some k"
  shows "k = Min {j. (j, d) \<in> set tbl}"
proof -
  have "Min {j. (j, d) \<in> set tbl} = k"
  proof (rule Min_eqI)
    show "finite {j. (j, d) \<in> set tbl}" by simp
    show "\<And>y. y \<in> {j. (j, d) \<in> set tbl} \<Longrightarrow> k \<le> y"
      using hash_find_least [OF assms] by simp
    show "k \<in> {j. (j, d) \<in> set tbl}"
      using hash_find_Some [OF assms(2)] by simp
  qed
  then show ?thesis by simp
qed

lemma hash_sorted:
  assumes "hash r p = Some (k, p')" and "sorted_wrt (<) (map fst (s_knownVariants p))"
  shows "sorted_wrt (<) (map fst (s_knownVariants p'))"
proof (cases "hash_find (data r) (s_knownVariants p)")
  case None
  from hash_minted(2) [OF None assms(1)] assms(2) show ?thesis
    by (simp add: sorted_map_assign)
next
  case (Some j)
  with assms show ?thesis by (simp add: hash_def)
qed

lemma hash_grows:
  assumes "hash r p = Some (k, p')"
  shows "set (s_knownVariants p) \<subseteq> set (s_knownVariants p')"
proof (cases "hash_find (data r) (s_knownVariants p)")
  case None
  from hash_minted [OF None assms] show ?thesis
    by (simp add: set_map_assign subset_insertI del: set_map)
next
  case (Some j)
  with assms show ?thesis by (simp add: hash_def)
qed

section \<open>A history of calls\<close>

lemma hash_all_keeps_find:
  "hash_all rs p = Some (ks, p') \<Longrightarrow> hash_find d (s_knownVariants p) = Some j \<Longrightarrow>
   hash_find d (s_knownVariants p') = Some j"
proof (induction rs arbitrary: p ks)
  case Nil
  then show ?case by simp
next
  case (Cons r rs)
  from Cons.prems(1) obtain k p1 ks' where
    h: "hash r p = Some (k, p1)" and rest: "hash_all rs p1 = Some (ks', p')"
    by (auto split: option.splits)
  from Cons.IH [OF rest hash_keeps_find [OF h Cons.prems(2)]] show ?case .
qed

lemma hash_all_length: "hash_all rs p = Some (ks, p') \<Longrightarrow> length ks = length rs"
  by (induction rs arbitrary: p ks) (auto split: option.splits)

lemma hash_all_then_find:
  "hash_all rs p = Some (ks, p') \<Longrightarrow> i < length rs \<Longrightarrow>
   hash_find (data (rs ! i)) (s_knownVariants p') = Some (ks ! i)"
proof (induction rs arbitrary: p ks i)
  case Nil
  then show ?case by simp
next
  case (Cons r rs)
  from Cons.prems(1) obtain k p1 ks' where
    h: "hash r p = Some (k, p1)" and rest: "hash_all rs p1 = Some (ks', p')" and ks: "ks = k # ks'"
    by (auto split: option.splits)
  show ?case
  proof (cases i)
    case 0
    from hash_all_keeps_find [OF rest hash_then_find [OF h]] 0 ks show ?thesis by simp
  next
    case (Suc i')
    with Cons.prems(2) have "i' < length rs" by simp
    from Cons.IH [OF rest this] Suc ks show ?thesis by simp
  qed
qed

lemma hash_all_sorted:
  "hash_all rs p = Some (ks, p') \<Longrightarrow> sorted_wrt (<) (map fst (s_knownVariants p)) \<Longrightarrow>
   sorted_wrt (<) (map fst (s_knownVariants p'))"
proof (induction rs arbitrary: p ks)
  case Nil
  then show ?case by simp
next
  case (Cons r rs)
  from Cons.prems(1) obtain k p1 ks' where
    h: "hash r p = Some (k, p1)" and rest: "hash_all rs p1 = Some (ks', p')"
    by (auto split: option.splits)
  from Cons.IH [OF rest hash_sorted [OF h Cons.prems(2)]] show ?case .
qed

lemma hash_all_grows:
  "hash_all rs p = Some (ks, p') \<Longrightarrow> set (s_knownVariants p) \<subseteq> set (s_knownVariants p')"
proof (induction rs arbitrary: p ks)
  case Nil
  then show ?case by simp
next
  case (Cons r rs)
  from Cons.prems(1) obtain k p1 ks' where
    h: "hash r p = Some (k, p1)" and rest: "hash_all rs p1 = Some (ks', p')"
    by (auto split: option.splits)
  from hash_grows [OF h] Cons.IH [OF rest] show ?case by blast
qed

section \<open>Identities of payloads\<close>

text \<open>
  C6. Claim: payloads that are equal by value receive the same identity, the first
  matching identity of the table being reused; a payload not yet in the table receives a
  fresh identity, distinct from every identity of the table; the table only grows.

  Let the table be in key order, as a \<^verbatim>\<open>std::map\<close> is, and let any history of calls of
  \<^verbatim>\<open>hash()\<close> on the routes \<open>rs\<close> have returned the identities \<open>ks\<close> and left the state \<open>p\<close>.
  Then two routes of the history with equal payloads have equal identities. A further
  call on a route \<open>r\<close> fails to return exactly when the payload of \<open>r\<close> is not in the table
  and the generator never yields a number that is not a key. When it returns \<open>k\<close>: every
  route of the history with the payload of \<open>r\<close> had the identity \<open>k\<close>; if the payload is in
  the table, the state is unchanged and \<open>k\<close> is the least key holding the payload, the
  first in the iteration; if it is not, \<open>k\<close> is no key of the table and the new table is
  the old one with \<open>k\<close> assigned the payload; and every entry of the table before the
  history is an entry after it, and still one after the call.
\<close>

theorem hash_identity:
  assumes sorted: "sorted_wrt (<) (map fst (s_knownVariants p0))"
    and history: "hash_all rs p0 = Some (ks, p)"
  shows "(\<forall>i j. i < length rs \<and> j < length rs \<and> data (rs ! i) = data (rs ! j) \<longrightarrow> ks ! i = ks ! j) \<and>
    (hash r p = None \<longleftrightarrow>
       data r \<notin> set (map snd (s_knownVariants p)) \<and>
       (\<forall>i. generator p !! i \<in> set (map fst (s_knownVariants p)))) \<and>
    (\<forall>k p'. hash r p = Some (k, p') \<longrightarrow>
       (\<forall>i. i < length rs \<and> data (rs ! i) = data r \<longrightarrow> ks ! i = k) \<and>
       (data r \<in> set (map snd (s_knownVariants p)) \<longrightarrow>
          p' = p \<and> k = Min {j. (j, data r) \<in> set (s_knownVariants p)}) \<and>
       (data r \<notin> set (map snd (s_knownVariants p)) \<longrightarrow>
          k \<notin> set (map fst (s_knownVariants p)) \<and>
          s_knownVariants p' = map_assign k (data r) (s_knownVariants p)) \<and>
       set (s_knownVariants p0) \<subseteq> set (s_knownVariants p) \<and>
       set (s_knownVariants p) \<subseteq> set (s_knownVariants p'))"
proof (intro conjI allI impI)
  fix i j
  assume "i < length rs \<and> j < length rs \<and> data (rs ! i) = data (rs ! j)"
  with hash_all_then_find [OF history, of i] hash_all_then_find [OF history, of j]
  show "ks ! i = ks ! j" by simp
next
  show "hash r p = None \<longleftrightarrow>
       data r \<notin> set (map snd (s_knownVariants p)) \<and>
       (\<forall>i. generator p !! i \<in> set (map fst (s_knownVariants p)))"
    by (rule hash_None)
next
  fix k p' i
  assume h: "hash r p = Some (k, p')" and "i < length rs \<and> data (rs ! i) = data r"
  with hash_all_then_find [OF history, of i]
  have "hash_find (data r) (s_knownVariants p) = Some (ks ! i)" by simp
  from hash_known [OF this] h show "ks ! i = k" by simp
next
  fix k p'
  assume h: "hash r p = Some (k, p')" and "data r \<in> set (map snd (s_knownVariants p))"
  then obtain j where f: "hash_find (data r) (s_knownVariants p) = Some j"
    using hash_find_None [of "data r" "s_knownVariants p"] by auto
  from hash_known [OF f] h have kj: "k = j" and "p' = p" by simp_all
  then show "p' = p" by simp
  from hash_find_Min [OF hash_all_sorted [OF history sorted] f] kj
  show "k = Min {j. (j, data r) \<in> set (s_knownVariants p)}" by simp
next
  fix k p'
  assume h: "hash r p = Some (k, p')" and "data r \<notin> set (map snd (s_knownVariants p))"
  then have f: "hash_find (data r) (s_knownVariants p) = None"
    by (simp add: hash_find_None del: set_map)
  from hash_minted [OF f h]
  show "k \<notin> set (map fst (s_knownVariants p))"
    and "s_knownVariants p' = map_assign k (data r) (s_knownVariants p)" .
next
  fix k p'
  assume h: "hash r p = Some (k, p')"
  from hash_all_grows [OF history] show "set (s_knownVariants p0) \<subseteq> set (s_knownVariants p)" .
  from hash_grows [OF h] show "set (s_knownVariants p) \<subseteq> set (s_knownVariants p')" .
qed

theorem hash_identity_witness:
  "sorted_wrt (<) (map fst (s_knownVariants process_start)) \<and>
   hash_all [route_of ''/a'' 10, route_of ''/b'' 20, route_of ''/c'' 10] process_start
     = Some ([7, 3, 7], process_later) \<and>
   hash (route_of ''/d'' 10) process_later = Some (7, process_later) \<and>
   7 = Min {j. (j, data (route_of ''/d'' 10)) \<in> set (s_knownVariants process_later)} \<and>
   hash (route_of ''/e'' 30) process_later
     = Some (9, \<lparr>s_knownVariants = [(3, 20), (7, 10), (9, 30)], generator = sconst 9\<rparr>) \<and>
   9 \<notin> set (map fst (s_knownVariants process_later)) \<and>
   set (s_knownVariants process_start) \<subseteq> set (s_knownVariants process_later) \<and>
   set (s_knownVariants process_later) \<subseteq> set [(3, 20), (7, 10), (9, 30)] \<and>
   hash_all [] process_stuck = Some ([], process_stuck) \<and>
   hash (route_of ''/e'' 30) process_stuck = None"
proof -
  let ?rs = "[route_of ''/a'' 10, route_of ''/b'' 20, route_of ''/c'' 10]"
  have s: "sorted_wrt (<) (map fst (s_knownVariants process_start))"
    by (simp add: process_start_def)
  have h: "hash_all ?rs process_start = Some ([7, 3, 7], process_later)"
    by (simp add: hash_def process_start_def process_later_def route_of_def
        hash_generate_stop hash_generate_step)
  have known: "hash (route_of ''/d'' 10) process_later = Some (7, process_later)"
    by (simp add: hash_def process_later_def route_of_def)
  have in_table: "data (route_of ''/d'' 10) \<in> set (map snd (s_knownVariants process_later))"
    by (simp add: process_later_def route_of_def)
  from hash_identity [OF s h, of "route_of ''/d'' 10"] known in_table
  have least: "7 = Min {j. (j, data (route_of ''/d'' 10)) \<in> set (s_knownVariants process_later)}"
    and grows: "set (s_knownVariants process_start) \<subseteq> set (s_knownVariants process_later)"
    by blast+
  have new: "hash (route_of ''/e'' 30) process_later
     = Some (9, \<lparr>s_knownVariants = [(3, 20), (7, 10), (9, 30)], generator = sconst 9\<rparr>)"
    by (simp add: hash_def process_later_def route_of_def hash_generate_stop hash_generate_step)
  have not_in_table: "data (route_of ''/e'' 30) \<notin> set (map snd (s_knownVariants process_later))"
    by (simp add: process_later_def route_of_def)
  from hash_identity [OF s h, of "route_of ''/e'' 30"] new not_in_table
  have fresh: "9 \<notin> set (map fst (s_knownVariants process_later))"
    and after: "set (s_knownVariants process_later) \<subseteq> set (s_knownVariants
       \<lparr>s_knownVariants = [(3, 20), (7, 10), (9, 30)], generator = sconst 9\<rparr>)"
    by blast+
  from after have grows': "set (s_knownVariants process_later) \<subseteq> set [(3, 20), (7, 10), (9, 30)]"
    by (simp only: process.select_convs)
  have s': "sorted_wrt (<) (map fst (s_knownVariants process_stuck))"
    by (simp add: process_stuck_def)
  have h': "hash_all [] process_stuck = Some ([], process_stuck)"
    by simp
  have no_payload: "data (route_of ''/e'' 30) \<notin> set (map snd (s_knownVariants process_stuck))"
    by (simp add: process_stuck_def route_of_def)
  have no_number: "\<forall>i. generator process_stuck !! i \<in> set (map fst (s_knownVariants process_stuck))"
    by (simp add: process_stuck_def)
  from hash_identity [OF s' h', of "route_of ''/e'' 30"] no_payload no_number
  have stuck: "hash (route_of ''/e'' 30) process_stuck = None"
    by blast
  from s h known least new fresh grows grows' h' stuck show ?thesis
    by blast
qed

section \<open>Active routes\<close>

lemma routeActive_Cons:
  "routeActive stack (s # spec) \<longleftrightarrow>
     (\<exists>r rest. stack = r # rest \<and> step_matches s r \<and> routeActive rest spec)"
  by (cases stack) simp_all

lemma matches_at_Nil: "matches_at 0 [] stack"
  by (simp add: matches_at_def)

lemma matches_at_Cons:
  "matches_at 0 (s # spec) stack \<longleftrightarrow>
     (\<exists>r rest. stack = r # rest \<and> step_matches s r \<and> matches_at 0 spec rest)"
proof (cases stack)
  case Nil
  then show ?thesis by (simp add: matches_at_def)
next
  case (Cons r rest)
  have "(\<forall>i. i < Suc (length spec) \<longrightarrow> step_matches ((s # spec) ! i) ((r # rest) ! i)) \<longleftrightarrow>
        step_matches s r \<and> (\<forall>i. i < length spec \<longrightarrow> step_matches (spec ! i) (rest ! i))"
    by (auto simp: less_Suc_eq_0_disj)
  with Cons show ?thesis by (auto simp: matches_at_def)
qed

lemma routeActive_matches: "routeActive stack spec \<longleftrightarrow> matches_at 0 spec stack"
proof (induction spec arbitrary: stack)
  case Nil
  show ?case by (simp add: matches_at_Nil)
next
  case (Cons s spec)
  show ?case unfolding routeActive_Cons matches_at_Cons using Cons.IH by simp
qed

text \<open>
  C1. Claim: \<^verbatim>\<open>routeActive(spec)\<close> is true if and only if the specification is a prefix of
  the current stack from index 0, each step matching its entry by name and, when the step
  has data, by equality of the data; a specification that matches the stack at a later
  offset only is not active.
\<close>

theorem routeActive_root_prefix:
  "(routeActive stack spec \<longleftrightarrow>
      length spec \<le> length stack \<and>
      (\<forall>i. i < length spec \<longrightarrow> step_matches (spec ! i) (stack ! i))) \<and>
   (routeActive stack spec \<longleftrightarrow> list_all2 step_matches spec (take (length spec) stack)) \<and>
   (\<forall>k. matches_at k spec stack \<and> \<not> matches_at 0 spec stack \<longrightarrow> \<not> routeActive stack spec)"
proof (intro conjI allI impI)
  show a: "routeActive stack spec \<longleftrightarrow>
      length spec \<le> length stack \<and>
      (\<forall>i. i < length spec \<longrightarrow> step_matches (spec ! i) (stack ! i))"
    using routeActive_matches [of stack spec] by (simp add: matches_at_def)
  show "routeActive stack spec \<longleftrightarrow> list_all2 step_matches spec (take (length spec) stack)"
    unfolding a by (auto simp: list_all2_conv_all_nth)
  fix k
  assume "matches_at k spec stack \<and> \<not> matches_at 0 spec stack"
  then show "\<not> routeActive stack spec"
    by (simp add: routeActive_matches)
qed

theorem routeActive_root_prefix_witness:
  "routeActive stack_abc [RouteName ''/home'', RouteName ''/login''] \<and>
   length [RouteName ''/home'', RouteName ''/login'' :: nat RouteStep] \<le> length stack_abc \<and>
   matches_at 1 [RouteName ''/login'', RouteData ''/google'' 2] stack_abc \<and>
   \<not> matches_at 0 [RouteName ''/login'', RouteData ''/google'' 2] stack_abc \<and>
   \<not> routeActive stack_abc [RouteName ''/login'', RouteData ''/google'' 2] \<and>
   routeActive stack_abc [RouteName ''/home'', RouteData ''/login'' 1, RouteName ''/google''] \<and>
   \<not> routeActive stack_abc [RouteName ''/home'', RouteName ''/login'', RouteName ''/google'', RouteName ''/more''] \<and>
   \<not> routeActive stack_abc [RouteName ''/home'', RouteData ''/login'' 5]"
proof -
  have m1: "matches_at 1 [RouteName ''/login'', RouteData ''/google'' 2] stack_abc"
    by (simp add: matches_at_def stack_abc_def route_of_def less_Suc_eq)
  have m0: "\<not> matches_at 0 [RouteName ''/login'', RouteData ''/google'' 2] stack_abc"
    by (auto simp: matches_at_def stack_abc_def route_of_def)
  have len: "length [RouteName ''/home'', RouteName ''/login'' :: nat RouteStep] \<le> length stack_abc"
    by (simp add: stack_abc_def)
  have pre: "\<forall>i. i < length [RouteName ''/home'', RouteName ''/login'' :: nat RouteStep] \<longrightarrow>
      step_matches ([RouteName ''/home'', RouteName ''/login''] ! i) (stack_abc ! i)"
    by (simp add: stack_abc_def route_of_def less_Suc_eq)
  from routeActive_root_prefix [of stack_abc "[RouteName ''/home'', RouteName ''/login'']"] len pre
  have t1: "routeActive stack_abc [RouteName ''/home'', RouteName ''/login'']" by blast
  from routeActive_root_prefix [of stack_abc "[RouteName ''/login'', RouteData ''/google'' 2]"] m1 m0
  have t2: "\<not> routeActive stack_abc [RouteName ''/login'', RouteData ''/google'' 2]" by blast
  have t3: "routeActive stack_abc [RouteName ''/home'', RouteData ''/login'' 1, RouteName ''/google'']"
    by (simp add: stack_abc_def route_of_def)
  have t4: "\<not> routeActive stack_abc [RouteName ''/home'', RouteName ''/login'', RouteName ''/google'', RouteName ''/more'']"
    by (simp add: stack_abc_def route_of_def)
  have t5: "\<not> routeActive stack_abc [RouteName ''/home'', RouteData ''/login'' 5]"
    by (simp add: stack_abc_def route_of_def)
  from t1 len m1 m0 t2 t3 t4 t5 show ?thesis by blast
qed

end
